theory Spec2Isabelle
  imports Main "HOL-Library.Word"
begin

section \<open>Chunk reassembly (\<open>onChunk\<close> in the device view)\<close>

text \<open>
  A photo arrives as a run of notifications. Each carries a 16-bit header and a payload;
  the listener calls \<open>onChunk(null, \<dots>)\<close> for the reserved header \<open>0xFFFF\<close> and
  \<open>onChunk(packetId, packet)\<close> otherwise. \<open>onChunk\<close> closes over two variables,
  \<open>previousChunk\<close> (\<open>-1\<close> when no transfer is running) and \<open>buffer\<close>.

  A \<open>Uint8Array\<close> is a list of bytes. The chunk id is a JavaScript number that only ever
  holds small integers; it is an \<open>int\<close> here, and \<open>null\<close> is \<open>None\<close>.
  Completing a photo hands \<open>buffer\<close> to \<open>rotateImage\<close>, whose result is appended to the
  photo list; that hand-over is the emission of the model, the second component of the
  result of \<open>onChunk\<close>.
\<close>

type_synonym byte = "8 word"
type_synonym bytes = "byte list"

record Reassembler =
  previousChunk :: int
  buffer :: bytes

definition onChunk :: "int option \<Rightarrow> bytes \<Rightarrow> Reassembler \<Rightarrow> Reassembler \<times> bytes option" where
  "onChunk cid data r =
     (if previousChunk r = - 1 then
        (case cid of
           None \<Rightarrow> (r, None)
         | Some i \<Rightarrow>
             if i = 0 then (r\<lparr>previousChunk := 0, buffer := [] @ data\<rparr>, None)
             else (r, None))
      else
        (case cid of
           None \<Rightarrow> (r\<lparr>previousChunk := - 1\<rparr>, Some (buffer r))
         | Some i \<Rightarrow>
             if i \<noteq> previousChunk r + 1 then (r\<lparr>previousChunk := - 1\<rparr>, None)
             else (r\<lparr>previousChunk := i, buffer := buffer r @ data\<rparr>, None)))"

text \<open>The notifications of a stream, delivered in order; the emitted photos are collected.\<close>

type_synonym chunk = "int option \<times> bytes"

fun feed :: "chunk list \<Rightarrow> Reassembler \<Rightarrow> Reassembler \<times> bytes list" where
  "feed [] r = (r, [])"
| "feed (c # cs) r =
     (case onChunk (fst c) (snd c) r of
        (r1, e) \<Rightarrow>
          (case feed cs r1 of
             (r2, es) \<Rightarrow> (r2, (case e of None \<Rightarrow> [] | Some b \<Rightarrow> [b]) @ es)))"

definition terminator :: chunk where
  "terminator = (None, [])"

text \<open>The chunks of one photo, numbered from \<open>k\<close> on: ids \<open>k, k+1, \<dots>\<close>.\<close>

definition numbered :: "nat \<Rightarrow> bytes list \<Rightarrow> chunk list" where
  "numbered k ps = map (\<lambda>(i, p). (Some (int i), p)) (enumerate k ps)"

definition idle :: "Reassembler \<Rightarrow> bool" where
  "idle r \<longleftrightarrow> previousChunk r = - 1"

definition reassembler_init :: Reassembler where
  "reassembler_init = \<lparr>previousChunk = - 1, buffer = []\<rparr>"


section \<open>Capture trigger (\<open>takePhoto\<close> in the device view)\<close>

text \<open>
  \<open>usePhotos\<close> keeps the flag \<open>isCapturing\<close> in component state and the control
  characteristic in the reference \<open>photoControlCharRef\<close>. \<open>takePhoto\<close> is made by
  \<open>useCallback\<close> with \<open>isCapturing\<close> among its dependencies: the function handed out by a
  render reads the \<open>isCapturing\<close> of that render, a constant, while \<open>setIsCapturing\<close>
  changes the state that the next render will see. The reference is read at the call.

  \<open>isCapturing\<close> is the state, \<open>handler_isCapturing\<close> the constant inside the
  \<open>takePhoto\<close> handed out last; the event \<open>Render\<close> makes a new \<open>takePhoto\<close> from the
  state. When the reference is set and its constant is false, \<open>takePhoto\<close> sets the state to
  true and writes the one-byte command \<open>0x01\<close> to the characteristic; the call then waits
  for the write. When the write resolves it arms a timer of 2000 ms whose callback sets the
  state to false; when the write rejects it sets the state to false at once. In the other
  branch it only prints an error. \<open>takePhoto\<close> returns no value in any branch.

  The waiting is made explicit: a call is cut at its \<open>await\<close>, and the write's
  settlement and the timer's firing are events of their own. The length of the cooldown is
  the timer's business; the model only has the timer pending or fired.
\<close>














section \<open>The agent (\<open>Agent\<close>)\<close>

text \<open>
  The class holds the photo list \<open>#photos\<close>, the record \<open>#state\<close>, its published copy
  \<open>#stateCopy\<close>, the listeners and a lock. An optional field is an \<open>option\<close>.
  \<open>#notify\<close> copies \<open>#state\<close> into \<open>#stateCopy\<close> and calls every listener; a listener
  reads \<open>#stateCopy\<close>. One round of listener calls is the effect \<open>Notify\<close>, holding the
  copy they read.

  The collaborators (\<open>startAudio\<close>, \<open>imageDescription\<close>, \<open>llamaFind\<close>) are outside
  the class. A call of one of them is an effect; what it answers is an input: a text, or an
  error when it throws. Console output is left out, except that the \<open>catch\<close> around
  \<open>startAudio\<close> is the effect \<open>AudioFailed\<close>.
\<close>

datatype error = Thrown string

record AgentState =
  lastDescription :: "string option"
  answer :: "string option"
  loading :: bool

record PhotoEntry =
  photo :: bytes
  description :: string

datatype effect =
    StartAudio
  | AudioFailed
  | Notify AgentState
  | InLock
  | LlamaFind string string
  | ImageDescription bytes

text \<open>
  Modelled from the spec: the class \<open>AsyncLock\<close> of \<open>utils/lock\<close>, of which only the
  call \<open>inLock(callback)\<close> is seen. At most one callback runs at a time; further
  callbacks wait in arrival order, and each runs to its end, awaited calls included, before
  the next starts; the end of a callback, by return or by throw, frees the lock.

  \<open>lock_waiting\<close> is the queue of callbacks handed to \<open>inLock\<close>. \<open>lock_running\<close> is
  the callback that holds the lock, stopped at its \<open>await\<close> with the local variables
  it still needs. \<open>leaving\<close> counts the calls of \<open>answer\<close> whose callback has ended and whose
  \<open>finally\<close> block has not run yet.
\<close>

datatype job = AnswerJob string | AddPhotoJob "bytes list"

datatype suspended =
    AwaitLlamaFind string string
  | AwaitImageDescription bytes "bytes list" "string option"

record Agent =
  photos :: "PhotoEntry list"
  state :: AgentState
  stateCopy :: AgentState
  lock_waiting :: "job list"
  lock_running :: "suspended option"
  leaving :: nat
  effects :: "effect list"

definition agent_init :: Agent where
  "agent_init =
     \<lparr>photos = [],
      state = \<lparr>lastDescription = None, answer = None, loading = False\<rparr>,
      stateCopy = \<lparr>lastDescription = None, answer = None, loading = False\<rparr>,
      lock_waiting = [], lock_running = None, leaving = 0, effects = []\<rparr>"

definition notify :: "Agent \<Rightarrow> Agent" where
  "notify a = a\<lparr>stateCopy := state a, effects := effects a @ [Notify (state a)]\<rparr>"

definition clearPhotos :: "Agent \<Rightarrow> Agent" where
  "clearPhotos a =
     notify (a\<lparr>photos := [], state := (state a)\<lparr>lastDescription := None, answer := None\<rparr>\<rparr>)"

subsection \<open>\<open>addPhoto\<close>\<close>

text \<open>
  The call hands its callback to the lock. The callback's loop stops at
  \<open>await imageDescription(p)\<close> for each photo; \<open>addPhoto_loop\<close> is the loop head with the
  photos still to do and the local \<open>lastDescription\<close>. A description that throws ends the
  callback there. After the loop, \<open>if (lastDescription)\<close> is false for \<open>null\<close> and for
  the empty text.
\<close>

definition addPhoto_call :: "bytes list \<Rightarrow> Agent \<Rightarrow> Agent" where
  "addPhoto_call ps a =
     a\<lparr>lock_waiting := lock_waiting a @ [AddPhotoJob ps], effects := effects a @ [InLock]\<rparr>"

definition addPhoto_loop :: "bytes list \<Rightarrow> string option \<Rightarrow> Agent \<Rightarrow> Agent" where
  "addPhoto_loop ps last_d a =
     (case ps of
        p # rest \<Rightarrow>
          a\<lparr>lock_running := Some (AwaitImageDescription p rest last_d),
            effects := effects a @ [ImageDescription p]\<rparr>
      | [] \<Rightarrow>
          (case last_d of
             None \<Rightarrow> a\<lparr>lock_running := None\<rparr>
           | Some d \<Rightarrow>
               if d \<noteq> [] then
                 notify (a\<lparr>state := (state a)\<lparr>lastDescription := Some d\<rparr>,
                           lock_running := None\<rparr>)
               else a\<lparr>lock_running := None\<rparr>))"

definition addPhoto_resumed ::
    "bytes \<Rightarrow> bytes list \<Rightarrow> string option \<Rightarrow> error + string \<Rightarrow> Agent \<Rightarrow> Agent" where
  "addPhoto_resumed p rest last_d r a =
     (case r of
        Inl e \<Rightarrow> a\<lparr>lock_running := None\<rparr>
      | Inr d \<Rightarrow>
          addPhoto_loop rest (Some d)
            (a\<lparr>photos := photos a @ [\<lparr>photo = p, description = d\<rparr>]\<rparr>))"

subsection \<open>\<open>answer\<close>\<close>

text \<open>A counter \<open>i\<close> joined to a text: the decimal digits of \<open>i\<close>.\<close>

function number_text :: "nat \<Rightarrow> string" where
  "number_text n =
     (if n < 10 then [''0123456789'' ! n]
      else number_text (n div 10) @ [''0123456789'' ! (n mod 10)])"
  by pat_completeness auto
termination
  by (relation "measure (\<lambda>n. n)") auto

fun combine :: "PhotoEntry list \<Rightarrow> string \<Rightarrow> nat \<Rightarrow> string \<times> nat" where
  "combine [] combined i = (combined, i)"
| "combine (p # ps) combined i =
     combine ps
       ((combined @ (''\<newline>\<newline>Image #'' @ number_text i @ ''\<newline>\<newline>'')) @ description p)
       (Suc i)"

definition fallback_answer :: string where
  "fallback_answer = ''Sorry, an error occurred while processing your request.''"

text \<open>
  \<open>answer_call\<close> is the call up to its \<open>await\<close> of the lock; the flag says whether
  \<open>startAudio\<close> throws. \<open>answer_locked\<close> is the callback from its start to
  \<open>await llamaFind(question, combined)\<close>, \<open>answer_resumed\<close> the rest of the callback, and
  \<open>answer_finally\<close> the \<open>finally\<close> block of the call. The callback catches every error
  of its own and puts the fixed reply in its place. The \<open>catch\<close> around the \<open>await\<close> of
  the lock only prints; it would run if \<open>inLock\<close> itself failed, which the lock as
  specified does not, and the \<open>finally\<close> block follows in either case.
\<close>

definition answer_call :: "string \<Rightarrow> bool \<Rightarrow> Agent \<Rightarrow> Agent" where
  "answer_call question audio_throws a =
     (let a1 = a\<lparr>effects := effects a @ StartAudio # (if audio_throws then [AudioFailed] else [])\<rparr>
      in if loading (state a1) then a1
         else
           (let a2 = notify (a1\<lparr>state := (state a1)\<lparr>loading := True\<rparr>\<rparr>)
            in a2\<lparr>lock_waiting := lock_waiting a2 @ [AnswerJob question],
                  effects := effects a2 @ [InLock]\<rparr>))"

definition answer_locked :: "string \<Rightarrow> Agent \<Rightarrow> Agent" where
  "answer_locked question a =
     (case combine (photos a) [] 0 of
        (combined, i) \<Rightarrow>
          a\<lparr>lock_running := Some (AwaitLlamaFind question combined),
            effects := effects a @ [LlamaFind question combined]\<rparr>)"

definition answer_resumed :: "error + string \<Rightarrow> Agent \<Rightarrow> Agent" where
  "answer_resumed r a =
     (case r of
        Inr reply \<Rightarrow>
          a\<lparr>state := (state a)\<lparr>answer := Some reply\<rparr>,
            lock_running := None, leaving := Suc (leaving a)\<rparr>
      | Inl e \<Rightarrow>
          a\<lparr>state := (state a)\<lparr>answer := Some fallback_answer\<rparr>,
            lock_running := None, leaving := Suc (leaving a)\<rparr>)"

definition answer_finally :: "Agent \<Rightarrow> Agent" where
  "answer_finally a =
     notify (a\<lparr>state := (state a)\<lparr>loading := False\<rparr>, leaving := leaving a - 1\<rparr>)"

subsection \<open>Events\<close>

text \<open>
  Between two \<open>await\<close>s the code runs without interruption. An event is a call of a
  method, the lock starting the callback at the head of its queue, the settlement of the
  awaited collaborator call, or a call of \<open>answer\<close> passing from its callback's end to its
  \<open>finally\<close> block. An event that cannot happen in a state gives \<open>None\<close>.
\<close>

datatype event =
    ClearPhotos
  | AddPhoto "bytes list"
  | Answer string bool
  | LockGrant
  | ImageDescriptionSettled "error + string"
  | LlamaFindSettled "error + string"
  | AnswerReturns

definition lock_start :: "job \<Rightarrow> Agent \<Rightarrow> Agent" where
  "lock_start j a =
     (case j of
        AnswerJob question \<Rightarrow> answer_locked question a
      | AddPhotoJob ps \<Rightarrow> addPhoto_loop ps None a)"

fun step :: "event \<Rightarrow> Agent \<Rightarrow> Agent option" where
  "step ClearPhotos a = Some (clearPhotos a)"
| "step (AddPhoto ps) a = Some (addPhoto_call ps a)"
| "step (Answer question audio_throws) a = Some (answer_call question audio_throws a)"
| "step LockGrant a =
     (case lock_running a of
        Some k \<Rightarrow> None
      | None \<Rightarrow>
          (case lock_waiting a of
             [] \<Rightarrow> None
           | j # js \<Rightarrow> Some (lock_start j (a\<lparr>lock_waiting := js\<rparr>))))"
| "step (ImageDescriptionSettled r) a =
     (case lock_running a of
        Some (AwaitImageDescription p rest last_d) \<Rightarrow> Some (addPhoto_resumed p rest last_d r a)
      | _ \<Rightarrow> None)"
| "step (LlamaFindSettled r) a =
     (case lock_running a of
        Some (AwaitLlamaFind question combined) \<Rightarrow> Some (answer_resumed r a)
      | _ \<Rightarrow> None)"
| "step AnswerReturns a = (if 0 < leaving a then Some (answer_finally a) else None)"

fun run :: "event list \<Rightarrow> Agent \<Rightarrow> Agent option" where
  "run [] a = Some a"
| "run (e # es) a = (case step e a of None \<Rightarrow> None | Some a' \<Rightarrow> run es a')"

subsection \<open>Notions used in the statements\<close>

text \<open>
  The context as the specification words it: for each photo, in the order of the list, a
  header with the photo's index counted from \<open>0\<close>, then the photo's description.
\<close>

definition context_blob :: "PhotoEntry list \<Rightarrow> string" where
  "context_blob ps =
     concat (map (\<lambda>(i, p). ''\<newline>\<newline>Image #'' @ number_text i @ ''\<newline>\<newline>'' @ description p)
       (enumerate 0 ps))"

text \<open>
  The calls of \<open>answer\<close> that have passed the check of \<open>loading\<close> and have not run their
  \<open>finally\<close> block: waiting for the lock, holding it, or between the callback's end and
  the \<open>finally\<close> block.
\<close>

fun job_is_answer :: "job \<Rightarrow> bool" where
  "job_is_answer (AnswerJob question) = True"
| "job_is_answer (AddPhotoJob ps) = False"

fun suspended_is_answer :: "suspended option \<Rightarrow> bool" where
  "suspended_is_answer (Some (AwaitLlamaFind question combined)) = True"
| "suspended_is_answer _ = False"

definition answers_in_flight :: "Agent \<Rightarrow> nat" where
  "answers_in_flight a =
     length (filter job_is_answer (lock_waiting a))
     + (if suspended_is_answer (lock_running a) then 1 else 0)
     + leaving a"

text \<open>The events that run a piece of a callback handed to \<open>inLock\<close>.\<close>

fun under_lock :: "event \<Rightarrow> bool" where
  "under_lock LockGrant = True"
| "under_lock (ImageDescriptionSettled r) = True"
| "under_lock (LlamaFindSettled r) = True"
| "under_lock _ = False"

text \<open>The events that are calls of a method from outside.\<close>

fun method_call :: "event \<Rightarrow> bool" where
  "method_call ClearPhotos = True"
| "method_call (AddPhoto ps) = True"
| "method_call (Answer question audio_throws) = True"
| "method_call _ = False"

subsection \<open>Letting the calls under way finish\<close>

text \<open>
  When no method is called, the runtime goes on with what is pending: a \<open>finally\<close> block
  that is due, else the settlement of the collaborator call the lock's holder waits for,
  else the start of the next callback in the lock's queue. \<open>respond\<close> stands for the
  collaborators: it gives, for a callback stopped at its \<open>await\<close>, the reply or the error
  it gets. \<open>settle\<close> repeats this until nothing is pending. \<open>work\<close> bounds the number of
  such events: a waiting \<open>answer\<close> callback has three to go (start, reply, \<open>finally\<close>),
  a waiting \<open>addPhoto\<close> callback its start and one reply per photo.
\<close>

fun job_work :: "job \<Rightarrow> nat" where
  "job_work (AnswerJob question) = 3"
| "job_work (AddPhotoJob ps) = Suc (length ps)"

fun suspended_work :: "suspended option \<Rightarrow> nat" where
  "suspended_work None = 0"
| "suspended_work (Some (AwaitLlamaFind question combined)) = 2"
| "suspended_work (Some (AwaitImageDescription p rest last_d)) = Suc (length rest)"

definition work :: "Agent \<Rightarrow> nat" where
  "work a = leaving a + suspended_work (lock_running a) + sum_list (map job_work (lock_waiting a))"

definition next_event :: "(suspended \<Rightarrow> error + string) \<Rightarrow> Agent \<Rightarrow> event option" where
  "next_event respond a =
     (if 0 < leaving a then Some AnswerReturns
      else
        (case lock_running a of
           Some (AwaitLlamaFind question combined) \<Rightarrow>
             Some (LlamaFindSettled (respond (AwaitLlamaFind question combined)))
         | Some (AwaitImageDescription p rest last_d) \<Rightarrow>
             Some (ImageDescriptionSettled (respond (AwaitImageDescription p rest last_d)))
         | None \<Rightarrow> (case lock_waiting a of [] \<Rightarrow> None | j # js \<Rightarrow> Some LockGrant)))"

function settle :: "(suspended \<Rightarrow> error + string) \<Rightarrow> Agent \<Rightarrow> Agent" where
  "settle respond a =
     (case next_event respond a of
        None \<Rightarrow> a
      | Some e \<Rightarrow> (case step e a of None \<Rightarrow> a | Some a' \<Rightarrow> settle respond a'))"
  by pat_completeness auto
termination
proof (relation "measure (\<lambda>(respond, a). work a)")
  show "wf (measure (\<lambda>(respond, a). work a))" by simp
next
  fix respond :: "suspended \<Rightarrow> error + string" and a e a'
  assume "next_event respond a = Some e" and "step e a = Some a'"
  then have "work a' < work a"
    by (auto simp: next_event_def work_def answer_finally_def notify_def answer_resumed_def
        addPhoto_resumed_def addPhoto_loop_def lock_start_def answer_locked_def
        split: if_splits option.splits suspended.splits list.splits sum.splits job.splits
          prod.splits)
  then show "((respond, a'), (respond, a)) \<in> measure (\<lambda>(respond, a). work a)" by simp
qed

section \<open>Proofs: chunk reassembly\<close>

subsection \<open>Runs of chunks\<close>

lemma feed_append:
  "feed (xs @ ys) r =
     (case feed xs r of (r1, es1) \<Rightarrow> (case feed ys r1 of (r2, es2) \<Rightarrow> (r2, es1 @ es2)))"
  by (induction xs arbitrary: r) (auto split: prod.splits)

lemma numbered_Cons: "numbered k (p # ps) = (Some (int k), p) # numbered (Suc k) ps"
  by (simp add: numbered_def)

lemma numbered_Nil: "numbered k [] = []"
  by (simp add: numbered_def)

lemma feed_numbered_running:
  "previousChunk r = int k \<Longrightarrow>
   feed (numbered (Suc k) ps) r =
     (r\<lparr>previousChunk := int (k + length ps), buffer := buffer r @ concat ps\<rparr>, [])"
proof (induction ps arbitrary: r k)
  case Nil
  then show ?case by (simp add: numbered_Nil)
next
  case (Cons p ps)
  let ?r1 = "r\<lparr>previousChunk := int (Suc k), buffer := buffer r @ p\<rparr>"
  have step: "onChunk (Some (int (Suc k))) p r = (?r1, None)"
    using Cons.prems by (simp add: onChunk_def)
  have "previousChunk ?r1 = int (Suc k)" by simp
  from Cons.IH [OF this] step show ?case
    by (simp add: numbered_Cons)
qed

lemma feed_numbered_idle:
  assumes "idle r" and "ps \<noteq> []"
  shows "feed (numbered 0 ps) r =
           (r\<lparr>previousChunk := int (length ps) - 1, buffer := concat ps\<rparr>, [])"
proof -
  from assms(2) obtain p ps' where ps: "ps = p # ps'" by (cases ps) auto
  let ?r1 = "r\<lparr>previousChunk := 0, buffer := p\<rparr>"
  have first: "onChunk (Some 0) p r = (?r1, None)"
    using assms(1) by (simp add: onChunk_def idle_def)
  have "previousChunk ?r1 = int 0" by simp
  from feed_numbered_running [OF this, of ps'] first show ?thesis
    by (simp add: ps numbered_Cons)
qed

lemma onChunk_terminator_running:
  "\<not> idle r \<Longrightarrow> onChunk None d r = (r\<lparr>previousChunk := - 1\<rparr>, Some (buffer r))"
  by (simp add: onChunk_def idle_def)

lemma onChunk_gap:
  "\<not> idle r \<Longrightarrow> g \<noteq> previousChunk r + 1 \<Longrightarrow>
   onChunk (Some g) d r = (r\<lparr>previousChunk := - 1\<rparr>, None)"
  by (simp add: onChunk_def idle_def)

lemma onChunk_idle_ignored:
  "idle r \<Longrightarrow> cid \<noteq> Some 0 \<Longrightarrow> onChunk cid d r = (r, None)"
  by (auto simp: onChunk_def idle_def split: option.splits)

lemma feed_idle_ignored:
  "idle r \<Longrightarrow> \<forall>c \<in> set cs. fst c \<noteq> Some 0 \<Longrightarrow> feed cs r = (r, [])"
  by (induction cs) (simp_all add: onChunk_idle_ignored)

lemma feed_terminator_idle: "idle r \<Longrightarrow> feed [terminator] r = (r, [])"
  by (simp add: terminator_def onChunk_def idle_def)

lemma feed_idle_any_buffer:
  "idle r \<Longrightarrow> idle r' \<Longrightarrow> snd (feed cs r) = snd (feed cs r')"
proof (induction cs arbitrary: r r')
  case Nil
  then show ?case by simp
next
  case (Cons c cs)
  show ?case
  proof (cases "fst c = Some 0")
    case True
    from True Cons.prems(1)
    have "onChunk (fst c) (snd c) r = (\<lparr>previousChunk = 0, buffer = snd c\<rparr>, None)"
      by (cases r) (simp add: onChunk_def idle_def)
    moreover from True Cons.prems(2)
    have "onChunk (fst c) (snd c) r' = (\<lparr>previousChunk = 0, buffer = snd c\<rparr>, None)"
      by (cases r') (simp add: onChunk_def idle_def)
    ultimately show ?thesis by simp
  next
    case False
    with Cons.prems have "onChunk (fst c) (snd c) r = (r, None)"
      and "onChunk (fst c) (snd c) r' = (r', None)"
      by (simp_all add: onChunk_idle_ignored)
    with Cons.IH [OF Cons.prems] show ?thesis
      by (simp split: prod.splits)
  qed
qed

lemma feed_run_complete:
  assumes "idle r" and "ps \<noteq> []"
  shows "feed (numbered 0 ps @ [terminator]) r =
           (r\<lparr>previousChunk := - 1, buffer := concat ps\<rparr>, [concat ps])"
proof -
  let ?r1 = "r\<lparr>previousChunk := int (length ps) - 1, buffer := concat ps\<rparr>"
  from assms(2) have "\<not> idle ?r1" by (cases ps) (simp_all add: idle_def)
  then have "onChunk None [] ?r1 = (?r1\<lparr>previousChunk := - 1\<rparr>, Some (buffer ?r1))"
    by (rule onChunk_terminator_running)
  with feed_numbered_idle [OF assms] show ?thesis
    by (simp add: feed_append terminator_def)
qed

text \<open>
  C1. Chunks \<open>0, 1, \<dots>, n-1\<close> (at least chunk \<open>0\<close>) and then the terminator, fed to an idle
  reassembler: exactly one photo is emitted, its bytes are the payloads concatenated in
  delivery order, and the reassembler is idle again.
\<close>

theorem onChunk_in_order_emits_concat:
  assumes "idle r" and "ps \<noteq> []"
  shows "feed (numbered 0 ps @ [terminator]) r =
           (r\<lparr>previousChunk := - 1, buffer := concat ps\<rparr>, [concat ps])
         \<and> idle (fst (feed (numbered 0 ps @ [terminator]) r))"
  using feed_run_complete [OF assms] by (simp add: idle_def)

theorem onChunk_in_order_emits_concat_witness:
  "idle reassembler_init \<and> [[0x41, 0x42], [0x43, 0x44 :: byte]] \<noteq> []
   \<and> feed [(Some 0, [0x41, 0x42]), (Some 1, [0x43, 0x44]), (None, [])] reassembler_init =
       (\<lparr>previousChunk = - 1, buffer = [0x41, 0x42, 0x43, 0x44]\<rparr>, [[0x41, 0x42, 0x43, 0x44]])"
proof -
  have i: "idle reassembler_init" by (simp add: idle_def reassembler_init_def)
  have n: "[[0x41, 0x42], [0x43, 0x44 :: byte]] \<noteq> []" by simp
  from onChunk_in_order_emits_concat [OF i n] i n show ?thesis
    by (simp add: numbered_def terminator_def reassembler_init_def)
qed

text \<open>
  C2. A transfer \<open>0, \<dots>, n-1\<close> is running and a chunk arrives whose id is not \<open>n\<close>. Whatever
  follows until the next chunk with id \<open>0\<close> (terminators, other ids), no photo is emitted and
  the reassembler is idle. A fresh transfer \<open>0, \<dots>, m-1\<close>, terminator then emits exactly its
  own payloads: the bytes of the broken transfer stay in the variable \<open>buffer\<close> until the
  chunk \<open>0\<close> replaces them, and reach no photo. In general, the photos emitted after the
  broken transfer are those that the rest of the stream gives on a reassembler that has
  seen nothing.
\<close>

theorem onChunk_gap_drops_transfer:
  assumes "idle r" and "ps \<noteq> []" and "g \<noteq> int (length ps)"
    and "\<forall>c \<in> set junk. fst c \<noteq> Some 0" and "qs \<noteq> []"
  shows "feed (numbered 0 ps @ (Some g, d) # junk) r =
           (r\<lparr>previousChunk := - 1, buffer := concat ps\<rparr>, [])
         \<and> feed (numbered 0 ps @ (Some g, d) # junk @ numbered 0 qs @ [terminator]) r =
           (r\<lparr>previousChunk := - 1, buffer := concat qs\<rparr>, [concat qs])
         \<and> snd (feed (numbered 0 ps @ (Some g, d) # cs) r) = snd (feed cs reassembler_init)"
proof -
  let ?r1 = "r\<lparr>previousChunk := int (length ps) - 1, buffer := concat ps\<rparr>"
  let ?r2 = "r\<lparr>previousChunk := - 1, buffer := concat ps\<rparr>"
  have run1: "feed (numbered 0 ps) r = (?r1, [])"
    by (rule feed_numbered_idle [OF assms(1,2)])
  from assms(2) have busy: "\<not> idle ?r1" by (cases ps) (simp_all add: idle_def)
  from assms(3) have "g \<noteq> previousChunk ?r1 + 1" by simp
  from onChunk_gap [OF busy this] have gap: "onChunk (Some g) d ?r1 = (?r2, None)"
    by simp
  have idle2: "idle ?r2" by (simp add: idle_def)
  have junk: "feed junk ?r2 = (?r2, [])"
    by (rule feed_idle_ignored [OF idle2 assms(4)])
  have fresh: "feed (numbered 0 qs @ [terminator]) ?r2 =
                 (?r2\<lparr>previousChunk := - 1, buffer := concat qs\<rparr>, [concat qs])"
    using feed_run_complete [OF idle2 assms(5)] .
  have a: "feed (numbered 0 ps @ (Some g, d) # junk) r = (?r2, [])"
    using run1 gap junk by (simp add: feed_append)
  have "feed (numbered 0 ps @ ((Some g, d) # junk) @ (numbered 0 qs @ [terminator])) r =
          (?r2\<lparr>previousChunk := - 1, buffer := concat qs\<rparr>, [concat qs])"
    unfolding feed_append [of "numbered 0 ps"] feed_append [of "(Some g, d) # junk"]
    using run1 gap junk fresh by simp
  then have b: "feed (numbered 0 ps @ (Some g, d) # junk @ numbered 0 qs @ [terminator]) r =
          (r\<lparr>previousChunk := - 1, buffer := concat qs\<rparr>, [concat qs])"
    by simp
  have "idle reassembler_init" by (simp add: idle_def reassembler_init_def)
  from feed_idle_any_buffer [OF idle2 this]
  have "snd (feed cs ?r2) = snd (feed cs reassembler_init)" .
  with run1 gap
  have c: "snd (feed (numbered 0 ps @ (Some g, d) # cs) r) = snd (feed cs reassembler_init)"
    by (simp add: feed_append split: prod.splits)
  from a b c show ?thesis by simp
qed

theorem onChunk_gap_drops_transfer_witness:
  "feed [(Some 0, [0x41]), (Some 1, [0x42]), (Some 3, [0x43]), (None, [])] reassembler_init =
     (\<lparr>previousChunk = - 1, buffer = [0x41, 0x42]\<rparr>, [])
   \<and> feed [(Some 0, [0x41]), (Some 1, [0x42]), (Some 3, [0x43]), (None, []),
            (Some 0, [0x5A]), (None, [])] reassembler_init =
     (\<lparr>previousChunk = - 1, buffer = [0x5A]\<rparr>, [[0x5A]])"
proof -
  have i: "idle reassembler_init" by (simp add: idle_def reassembler_init_def)
  have p: "[[0x41], [0x42 :: byte]] \<noteq> []" by simp
  have g: "(3::int) \<noteq> int (length [[0x41], [0x42 :: byte]])" by simp
  have j: "\<forall>c \<in> set [terminator]. fst c \<noteq> Some 0" by (simp add: terminator_def)
  have q: "[[0x5A :: byte]] \<noteq> []" by simp
  from onChunk_gap_drops_transfer [OF i p g j q, of "[0x43]"] show ?thesis
    by (simp add: numbered_def terminator_def reassembler_init_def)
qed

section \<open>Proofs: the capture trigger\<close>






section \<open>Proofs: the agent\<close>

subsection \<open>\<open>clearPhotos\<close>\<close>

text \<open>
  C10. \<open>clearPhotos\<close> empties the photo list, sets \<open>lastDescription\<close> and \<open>answer\<close> to
  absent, keeps \<open>loading\<close>, and notifies the listeners once with the new state. The lock
  and the calls under way are not touched. A second call changes nothing but for one more
  notification of the same state.
\<close>

theorem clearPhotos_resets_and_publishes_once:
  "photos (clearPhotos a) = []
   \<and> lastDescription (state (clearPhotos a)) = None
   \<and> answer (state (clearPhotos a)) = None
   \<and> loading (state (clearPhotos a)) = loading (state a)
   \<and> stateCopy (clearPhotos a) = state (clearPhotos a)
   \<and> effects (clearPhotos a) = effects a @ [Notify (state (clearPhotos a))]
   \<and> lock_waiting (clearPhotos a) = lock_waiting a
   \<and> lock_running (clearPhotos a) = lock_running a
   \<and> leaving (clearPhotos a) = leaving a
   \<and> clearPhotos (clearPhotos a) =
       (clearPhotos a)\<lparr>effects := effects (clearPhotos a) @ [Notify (state (clearPhotos a))]\<rparr>"
  by (simp add: clearPhotos_def notify_def)

theorem clearPhotos_resets_and_publishes_once_witness:
  "clearPhotos
     \<lparr>photos = [\<lparr>photo = [1], description = ''a cat''\<rparr>],
      state = \<lparr>lastDescription = Some ''a cat'', answer = Some ''yes'', loading = True\<rparr>,
      stateCopy = \<lparr>lastDescription = Some ''a cat'', answer = None, loading = True\<rparr>,
      lock_waiting = [], lock_running = None, leaving = 1, effects = []\<rparr> =
     \<lparr>photos = [],
      state = \<lparr>lastDescription = None, answer = None, loading = True\<rparr>,
      stateCopy = \<lparr>lastDescription = None, answer = None, loading = True\<rparr>,
      lock_waiting = [], lock_running = None, leaving = 1,
      effects = [Notify \<lparr>lastDescription = None, answer = None, loading = True\<rparr>]\<rparr>"
proof -
  let ?a = "\<lparr>photos = [\<lparr>photo = [1], description = ''a cat''\<rparr>],
      state = \<lparr>lastDescription = Some ''a cat'', answer = Some ''yes'', loading = True\<rparr>,
      stateCopy = \<lparr>lastDescription = Some ''a cat'', answer = None, loading = True\<rparr>,
      lock_waiting = [], lock_running = None, leaving = 1, effects = []\<rparr>"
  note f = clearPhotos_resets_and_publishes_once [of ?a]
  have "state (clearPhotos ?a) = \<lparr>lastDescription = None, answer = None, loading = True\<rparr>"
    using f by (cases "state (clearPhotos ?a)") simp
  with f show ?thesis
    by (cases "clearPhotos ?a") simp
qed

subsection \<open>\<open>answer\<close>: the check of \<open>loading\<close>\<close>

text \<open>
  C4. A call of \<open>answer\<close> while \<open>loading\<close> is true: the photo list, the state, its
  published copy, the lock's queue, the callback holding the lock and the calls under way
  stay as they are. The only effect is the attempt to start the audio (and the \<open>catch\<close>
  when it throws): no notification, no callback handed to the lock, no call of
  \<open>llamaFind\<close>, and nothing of this call is left to run later.
\<close>

theorem answer_while_loading_is_dropped:
  assumes "loading (state a)"
  shows "step (Answer question audio_throws) a =
           Some (a\<lparr>effects := effects a @ StartAudio # (if audio_throws then [AudioFailed] else [])\<rparr>)"
  using assms by (simp add: answer_call_def Let_def)

theorem answer_while_loading_is_dropped_witness:
  "loading (state (the (run [Answer ''first'' False] agent_init)))
   \<and> step (Answer ''second'' True) (the (run [Answer ''first'' False] agent_init)) =
       Some \<lparr>photos = [],
             state = \<lparr>lastDescription = None, answer = None, loading = True\<rparr>,
             stateCopy = \<lparr>lastDescription = None, answer = None, loading = True\<rparr>,
             lock_waiting = [AnswerJob ''first''], lock_running = None, leaving = 0,
             effects = [StartAudio,
                        Notify \<lparr>lastDescription = None, answer = None, loading = True\<rparr>,
                        InLock, StartAudio, AudioFailed]\<rparr>"
proof -
  let ?a1 = "\<lparr>photos = [],
             state = \<lparr>lastDescription = None, answer = None, loading = True\<rparr>,
             stateCopy = \<lparr>lastDescription = None, answer = None, loading = True\<rparr>,
             lock_waiting = [AnswerJob ''first''], lock_running = None, leaving = 0,
             effects = [StartAudio,
                        Notify \<lparr>lastDescription = None, answer = None, loading = True\<rparr>,
                        InLock]\<rparr>"
  have r: "run [Answer ''first'' False] agent_init = Some ?a1"
    by (simp add: agent_init_def answer_call_def notify_def Let_def)
  have l: "loading (state ?a1)" by simp
  from answer_while_loading_is_dropped [OF l, of "''second''" True] r l show ?thesis
    by simp
qed

text \<open>
  C6, as the code has it. Every call of \<open>answer\<close> first attempts to start the audio, before
  it looks at \<open>loading\<close>; a throw of the attempt is caught and the call goes on. A call
  that finds \<open>loading\<close> true stops after the attempt. A call that finds it false then
  raises \<open>loading\<close>, notifies, and hands its callback to the lock.
\<close>

theorem answer_starts_audio_before_check:
  "step (Answer question audio_throws) a = Some (answer_call question audio_throws a)
   \<and> effects (answer_call question audio_throws a) =
       effects a @ StartAudio # (if audio_throws then [AudioFailed] else [])
         @ (if loading (state a) then []
            else [Notify ((state a)\<lparr>loading := True\<rparr>), InLock])
   \<and> loading (state (answer_call question audio_throws a))"
  by (simp add: answer_call_def notify_def Let_def)

theorem answer_starts_audio_before_check_witness:
  "effects (answer_call ''Q'' True agent_init) =
     [StartAudio, AudioFailed,
      Notify \<lparr>lastDescription = None, answer = None, loading = True\<rparr>, InLock]"
  using answer_starts_audio_before_check [of "''Q''" True agent_init]
  by (simp add: agent_init_def)

text \<open>
  The claim C6 as worded fails: the second call below is made while \<open>loading\<close> is true and
  is dropped (the lock's queue holds the first call only), yet it has attempted the audio;
  and the first call attempts the audio before \<open>loading\<close> is raised and published.
\<close>

theorem answer_audio_after_check_counterexample:
  "map_option (\<lambda>a. (loading (state a), lock_waiting a, effects a))
     (run [Answer ''first'' False] agent_init) =
     Some (True, [AnswerJob ''first''],
           [StartAudio, Notify \<lparr>lastDescription = None, answer = None, loading = True\<rparr>,
            InLock])
   \<and> map_option (\<lambda>a. (loading (state a), lock_waiting a, effects a))
     (run [Answer ''first'' False, Answer ''second'' False] agent_init) =
     Some (True, [AnswerJob ''first''],
           [StartAudio, Notify \<lparr>lastDescription = None, answer = None, loading = True\<rparr>,
            InLock, StartAudio])"
  by (simp add: agent_init_def answer_call_def notify_def Let_def)

subsection \<open>\<open>answer\<close>: the context\<close>

lemma number_text_0: "number_text 0 = ''0''"
  by simp

lemma combine_eq:
  "combine ps combined i =
     (combined @
        concat (map (\<lambda>(k, p). ''\<newline>\<newline>Image #'' @ number_text k @ ''\<newline>\<newline>'' @ description p)
          (enumerate i ps)),
      i + length ps)"
  by (induction ps arbitrary: combined i) simp_all

lemma combine_context_blob: "combine ps [] 0 = (context_blob ps, length ps)"
  by (simp add: combine_eq context_blob_def)

lemma answer_locked_effects:
  "effects (answer_locked question a) = effects a @ [LlamaFind question (context_blob (photos a))]"
  by (simp add: answer_locked_def combine_context_blob)

lemma run_append:
  "run (xs @ ys) a = (case run xs a of None \<Rightarrow> None | Some a' \<Rightarrow> run ys a')"
  by (induction xs arbitrary: a) (auto split: option.splits)

text \<open>
  C5. The callback of \<open>answer\<close>, whenever it runs, calls \<open>llamaFind\<close> with the question and
  with the context built from the photo list of that moment: for each photo in list order,
  the header with its index from \<open>0\<close>, then its description. With \<open>loading\<close> false and the
  lock free, a call of \<open>answer\<close> followed by the start of its callback has these effects
  in this order.
\<close>

theorem answer_passes_indexed_context:
  assumes "\<not> loading (state a)" and "lock_running a = None" and "lock_waiting a = []"
  shows "map_option effects (run [Answer question audio_throws, LockGrant] a) =
           Some (effects a @ StartAudio # (if audio_throws then [AudioFailed] else [])
                 @ [Notify ((state a)\<lparr>loading := True\<rparr>), InLock,
                    LlamaFind question (context_blob (photos a))])
         \<and> effects (answer_locked question b) =
             effects b @ [LlamaFind question (context_blob (photos b))]"
  using assms
  by (simp add: answer_call_def notify_def Let_def lock_start_def answer_locked_effects)

theorem answer_passes_indexed_context_witness:
  "map_option effects
     (run [AddPhoto [[0xFF, 0xD8]], LockGrant, ImageDescriptionSettled (Inr ''a cat''),
           Answer ''what animal?'' False, LockGrant] agent_init) =
     Some [InLock, ImageDescription [0xFF, 0xD8],
           Notify \<lparr>lastDescription = Some ''a cat'', answer = None, loading = False\<rparr>,
           StartAudio,
           Notify \<lparr>lastDescription = Some ''a cat'', answer = None, loading = True\<rparr>,
           InLock, LlamaFind ''what animal?'' ''\<newline>\<newline>Image #0\<newline>\<newline>a cat'']"
proof -
  let ?a1 = "\<lparr>photos = [\<lparr>photo = [0xFF, 0xD8], description = ''a cat''\<rparr>],
      state = \<lparr>lastDescription = Some ''a cat'', answer = None, loading = False\<rparr>,
      stateCopy = \<lparr>lastDescription = Some ''a cat'', answer = None, loading = False\<rparr>,
      lock_waiting = [], lock_running = None, leaving = 0,
      effects = [InLock, ImageDescription [0xFF, 0xD8],
           Notify \<lparr>lastDescription = Some ''a cat'', answer = None, loading = False\<rparr>]\<rparr>"
  have r: "run [AddPhoto [[0xFF, 0xD8]], LockGrant, ImageDescriptionSettled (Inr ''a cat'')]
             agent_init = Some ?a1"
    by (simp add: agent_init_def addPhoto_call_def lock_start_def addPhoto_loop_def
        addPhoto_resumed_def notify_def)
  have h: "\<not> loading (state ?a1)" "lock_running ?a1 = None" "lock_waiting ?a1 = []"
    by simp_all
  have c: "context_blob (photos ?a1) = ''\<newline>\<newline>Image #0\<newline>\<newline>a cat''"
    by (simp add: context_blob_def)
  have "run ([AddPhoto [[0xFF, 0xD8]], LockGrant, ImageDescriptionSettled (Inr ''a cat'')]
             @ [Answer ''what animal?'' False, LockGrant]) agent_init =
        run [Answer ''what animal?'' False, LockGrant] ?a1"
    unfolding run_append r by simp
  with answer_passes_indexed_context [OF h, of "''what animal?''" False] c show ?thesis
    by simp
qed

text \<open>
  C9, as the code has it. A call of \<open>answer\<close> that finds \<open>loading\<close> false always hands its
  callback to the lock, whatever the photo list holds. The callback reads the list when
  the lock starts it, not when \<open>answer\<close> is called: started with no photo in the list, it
  calls \<open>llamaFind\<close> with the question and the empty text and then waits for the reply.
  Nothing in the call or in the callback looks at the number of photos. In particular,
  with the lock free and the list empty at the call, the call followed by the start of its
  callback calls \<open>llamaFind\<close> with the empty text.
\<close>

theorem answer_without_photos_calls_llamaFind:
  "(\<not> loading (state a) \<longrightarrow>
      lock_waiting (answer_call question audio_throws a) = lock_waiting a @ [AnswerJob question])
   \<and> (photos b = [] \<and> lock_running b = None \<and> lock_waiting b = AnswerJob question # js \<longrightarrow>
        map_option (\<lambda>b'. (effects b', lock_running b', lock_waiting b')) (step LockGrant b) =
          Some (effects b @ [LlamaFind question ''''], Some (AwaitLlamaFind question ''''), js))
   \<and> (photos a = [] \<and> \<not> loading (state a) \<and> lock_running a = None \<and> lock_waiting a = [] \<longrightarrow>
        map_option (\<lambda>a'. (effects a', lock_running a'))
           (run [Answer question audio_throws, LockGrant] a) =
           Some (effects a @ StartAudio # (if audio_throws then [AudioFailed] else [])
                 @ [Notify ((state a)\<lparr>loading := True\<rparr>), InLock, LlamaFind question ''''],
                 Some (AwaitLlamaFind question '''')))"
  by (simp add: answer_call_def notify_def Let_def lock_start_def answer_locked_def)

theorem answer_without_photos_calls_llamaFind_witness:
  "map_option (\<lambda>a'. (effects a', lock_running a'))
     (run [Answer ''anyone there?'' False, LockGrant] agent_init) =
     Some ([StartAudio, Notify \<lparr>lastDescription = None, answer = None, loading = True\<rparr>,
            InLock, LlamaFind ''anyone there?'' ''''],
           Some (AwaitLlamaFind ''anyone there?'' ''''))
   \<and> map_option (\<lambda>a'. (photos a', effects a', lock_running a'))
     (run [AddPhoto [], Answer ''anyone there?'' False, LockGrant, LockGrant] agent_init) =
     Some ([],
           [InLock, StartAudio,
            Notify \<lparr>lastDescription = None, answer = None, loading = True\<rparr>,
            InLock, LlamaFind ''anyone there?'' ''''],
           Some (AwaitLlamaFind ''anyone there?'' ''''))"
proof -
  let ?b = "\<lparr>photos = [],
      state = \<lparr>lastDescription = None, answer = None, loading = True\<rparr>,
      stateCopy = \<lparr>lastDescription = None, answer = None, loading = True\<rparr>,
      lock_waiting = [AnswerJob ''anyone there?''], lock_running = None, leaving = 0,
      effects = [InLock, StartAudio,
        Notify \<lparr>lastDescription = None, answer = None, loading = True\<rparr>, InLock]\<rparr>"
  note t = answer_without_photos_calls_llamaFind
  have h: "photos agent_init = [] \<and> \<not> loading (state agent_init)
           \<and> lock_running agent_init = None \<and> lock_waiting agent_init = []"
    by (simp add: agent_init_def)
  with t [of agent_init "''anyone there?''" False]
  have first: "map_option (\<lambda>a'. (effects a', lock_running a'))
     (run [Answer ''anyone there?'' False, LockGrant] agent_init) =
     Some ([StartAudio, Notify \<lparr>lastDescription = None, answer = None, loading = True\<rparr>,
            InLock, LlamaFind ''anyone there?'' ''''],
           Some (AwaitLlamaFind ''anyone there?'' ''''))"
    by (simp add: agent_init_def)
  have r: "run [AddPhoto [], Answer ''anyone there?'' False, LockGrant] agent_init = Some ?b"
    by (simp add: agent_init_def addPhoto_call_def answer_call_def notify_def Let_def
        lock_start_def addPhoto_loop_def)
  have hb: "photos ?b = [] \<and> lock_running ?b = None
            \<and> lock_waiting ?b = AnswerJob ''anyone there?'' # []"
    by simp
  with t [of _ "''anyone there?''" _ ?b "[]"]
  have g: "map_option (\<lambda>b'. (effects b', lock_running b', lock_waiting b')) (step LockGrant ?b) =
          Some (effects ?b @ [LlamaFind ''anyone there?'' ''''],
                Some (AwaitLlamaFind ''anyone there?'' ''''), [])"
    by blast
  have "run ([AddPhoto [], Answer ''anyone there?'' False, LockGrant] @ [LockGrant]) agent_init =
          step LockGrant ?b"
    unfolding run_append r by (simp split: option.splits)
  with g have second: "map_option (\<lambda>a'. (photos a', effects a', lock_running a'))
     (run [AddPhoto [], Answer ''anyone there?'' False, LockGrant, LockGrant] agent_init) =
     Some ([],
           [InLock, StartAudio,
            Notify \<lparr>lastDescription = None, answer = None, loading = True\<rparr>,
            InLock, LlamaFind ''anyone there?'' ''''],
           Some (AwaitLlamaFind ''anyone there?'' ''''))"
    by (auto simp: lock_start_def answer_locked_def)
  from first second show ?thesis by simp
qed

text \<open>
  The claim C9 as worded fails. Below, \<open>answer\<close> is called with \<open>loading\<close> false and an
  empty photo list while the callback of \<open>addPhoto\<close> holds the lock and waits for a
  description. The description arrives and the photo is appended before the lock starts
  the callback of \<open>answer\<close>, which then passes a context that is not empty.
\<close>

theorem answer_reads_photos_late_counterexample:
  "map_option (\<lambda>a. (photos a, loading (state a)))
     (run [AddPhoto [[1]], LockGrant] agent_init) = Some ([], False)
   \<and> map_option (\<lambda>a. last (effects a))
     (run [AddPhoto [[1]], LockGrant, Answer ''what animal?'' False,
           ImageDescriptionSettled (Inr ''a cat''), LockGrant] agent_init) =
     Some (LlamaFind ''what animal?'' ''\<newline>\<newline>Image #0\<newline>\<newline>a cat'')"
  by (simp add: agent_init_def addPhoto_call_def lock_start_def addPhoto_loop_def
      addPhoto_resumed_def answer_call_def notify_def Let_def answer_locked_def)

section \<open>Proofs: the agent's lock and the flag \<open>loading\<close>\<close>

text \<open>
  What one event can change. The photo list, \<open>lastDescription\<close> and \<open>answer\<close> change only
  in a piece of a callback run by the lock, or in \<open>clearPhotos\<close>; \<open>loading\<close> changes only in
  a call of \<open>answer\<close> or in its \<open>finally\<close> block, outside the callback. A piece of a
  callback runs when the lock starts the callback (the lock was free and the callback
  first in its queue) or while the callback holds the lock. So \<open>addPhoto\<close> and \<open>answer\<close>
  touch the list and the two texts under the lock only. \<open>clearPhotos\<close> empties the list,
  resets the two texts and notifies at once: it hands nothing to the lock and leaves the
  lock's queue and holder as they are.
\<close>

lemma step_changes_fields:
  assumes "step e a = Some a'"
  shows "((photos a' \<noteq> photos a \<or> lastDescription (state a') \<noteq> lastDescription (state a)
            \<or> answer (state a') \<noteq> answer (state a))
          \<longrightarrow> under_lock e \<or> e = ClearPhotos)
       \<and> (loading (state a') \<noteq> loading (state a)
          \<longrightarrow> (\<exists>question audio_throws. e = Answer question audio_throws) \<or> e = AnswerReturns)
       \<and> (under_lock e
          \<longrightarrow> (e = LockGrant \<and> lock_running a = None \<and> lock_waiting a \<noteq> [])
              \<or> lock_running a \<noteq> None)
       \<and> (e = ClearPhotos
          \<longrightarrow> photos a' = [] \<and> lastDescription (state a') = None \<and> answer (state a') = None
              \<and> lock_running a' = lock_running a
              \<and> lock_waiting a' = lock_waiting a
              \<and> effects a' = effects a @ [Notify (state a')])"
proof (cases e)
  case ClearPhotos
  with assms show ?thesis by (auto simp: clearPhotos_def notify_def)
next
  case (AddPhoto ps)
  with assms show ?thesis by (auto simp: addPhoto_call_def)
next
  case (Answer question audio_throws)
  with assms show ?thesis by (auto simp: answer_call_def notify_def Let_def split: if_splits)
next
  case LockGrant
  with assms show ?thesis
    by (auto simp: lock_start_def answer_locked_def addPhoto_loop_def notify_def
        split: option.splits list.splits job.splits prod.splits if_splits)
next
  case (ImageDescriptionSettled r)
  with assms show ?thesis
    by (auto simp: addPhoto_resumed_def addPhoto_loop_def notify_def
        split: option.splits suspended.splits sum.splits list.splits if_splits)
next
  case (LlamaFindSettled r)
  with assms show ?thesis
    by (auto simp: answer_resumed_def split: option.splits suspended.splits sum.splits)
next
  case AnswerReturns
  with assms show ?thesis
    by (auto simp: answer_finally_def notify_def split: if_splits)
qed

text \<open>
  C7. The claim wants every change of the photo list made under the lock. \<open>clearPhotos\<close>
  does not take the lock. Below, \<open>addPhoto\<close> of two photos holds the lock and waits for the
  description of the second; \<open>clearPhotos\<close> then empties the list and notifies, with the
  lock still held by that callback and with no callback of its own handed to the lock. The
  callback goes on: the second photo of the batch is appended to the emptied list and
  \<open>lastDescription\<close> is set again, so that after the clearing the agent holds one photo
  of the cleared batch, and a question asked next gets it as image \<open>0\<close>.
\<close>

theorem clearPhotos_races_with_addPhoto:
  "map_option (\<lambda>a. (photos a, lastDescription (state a), lock_running a, lock_waiting a, effects a))
     (run [AddPhoto [[1], [2]], LockGrant, ImageDescriptionSettled (Inr ''a cat'')] agent_init) =
     Some ([\<lparr>photo = [1], description = ''a cat''\<rparr>], None,
           Some (AwaitImageDescription [2] [] (Some ''a cat'')), [],
           [InLock, ImageDescription [1], ImageDescription [2]])
   \<and> map_option (\<lambda>a. (photos a, lastDescription (state a), lock_running a, lock_waiting a, effects a))
     (run [AddPhoto [[1], [2]], LockGrant, ImageDescriptionSettled (Inr ''a cat''), ClearPhotos]
        agent_init) =
     Some ([], None, Some (AwaitImageDescription [2] [] (Some ''a cat'')), [],
           [InLock, ImageDescription [1], ImageDescription [2],
            Notify \<lparr>lastDescription = None, answer = None, loading = False\<rparr>])
   \<and> under_lock ClearPhotos = False
   \<and> map_option (\<lambda>a. (photos a, lastDescription (state a), lock_running a))
     (run [AddPhoto [[1], [2]], LockGrant, ImageDescriptionSettled (Inr ''a cat''), ClearPhotos,
           ImageDescriptionSettled (Inr ''a dog'')] agent_init) =
     Some ([\<lparr>photo = [2], description = ''a dog''\<rparr>], Some ''a dog'', None)
   \<and> map_option (\<lambda>a. last (effects a))
     (run [AddPhoto [[1], [2]], LockGrant, ImageDescriptionSettled (Inr ''a cat''), ClearPhotos,
           ImageDescriptionSettled (Inr ''a dog''), Answer ''what animal?'' False, LockGrant]
        agent_init) =
     Some (LlamaFind ''what animal?'' ''\<newline>\<newline>Image #0\<newline>\<newline>a dog'')"
  by (simp add: agent_init_def addPhoto_call_def lock_start_def addPhoto_loop_def
      addPhoto_resumed_def clearPhotos_def notify_def answer_call_def Let_def
      answer_locked_def)

subsection \<open>One call of \<open>answer\<close> at a time\<close>

lemma step_in_flight:
  assumes "answers_in_flight a = (if loading (state a) then 1 else 0)"
    and "loading (stateCopy a) = loading (state a)"
    and "step e a = Some a'"
  shows "answers_in_flight a' = (if loading (state a') then 1 else 0)
         \<and> loading (stateCopy a') = loading (state a')"
proof (cases e)
  case ClearPhotos
  with assms show ?thesis
    by (auto simp: clearPhotos_def notify_def answers_in_flight_def)
next
  case (AddPhoto ps)
  with assms show ?thesis
    by (auto simp: addPhoto_call_def answers_in_flight_def)
next
  case (Answer question audio_throws)
  with assms show ?thesis
    by (auto simp: answer_call_def notify_def Let_def answers_in_flight_def split: if_splits)
next
  case LockGrant
  with assms show ?thesis
    by (auto simp: lock_start_def answer_locked_def addPhoto_loop_def notify_def
        answers_in_flight_def
        split: option.splits list.splits job.splits prod.splits if_splits)
next
  case (ImageDescriptionSettled r)
  with assms show ?thesis
    by (auto simp: addPhoto_resumed_def addPhoto_loop_def notify_def answers_in_flight_def
        split: option.splits suspended.splits sum.splits list.splits if_splits)
next
  case (LlamaFindSettled r)
  with assms show ?thesis
    by (auto simp: answer_resumed_def answers_in_flight_def
        split: option.splits suspended.splits sum.splits if_splits)
next
  case AnswerReturns
  with assms(3) have due: "0 < leaving a" and a': "a' = answer_finally a"
    by (simp_all split: if_splits)
  from due assms(1) have "loading (state a)" and "answers_in_flight a = 1"
    by (auto simp: answers_in_flight_def split: if_splits)
  with due have "answers_in_flight a = leaving a" and "leaving a = 1"
    by (simp_all add: answers_in_flight_def)
  then have "answers_in_flight (answer_finally a) = 0"
    by (simp add: answers_in_flight_def answer_finally_def notify_def)
  then show ?thesis
    by (simp add: a' answer_finally_def notify_def)
qed

lemma run_in_flight:
  assumes "answers_in_flight a = (if loading (state a) then 1 else 0)"
    and "loading (stateCopy a) = loading (state a)"
    and "run es a = Some a'"
  shows "answers_in_flight a' = (if loading (state a') then 1 else 0)
         \<and> loading (stateCopy a') = loading (state a')"
  using assms
proof (induction es arbitrary: a)
  case Nil
  then show ?case by simp
next
  case (Cons e es)
  from Cons.prems(3) obtain a1 where a1: "step e a = Some a1" and rest: "run es a1 = Some a'"
    by (auto split: option.splits)
  from step_in_flight [OF Cons.prems(1,2) a1]
  have "answers_in_flight a1 = (if loading (state a1) then 1 else 0)"
    and "loading (stateCopy a1) = loading (state a1)"
    by simp_all
  then show ?case using rest by (rule Cons.IH)
qed

lemma reachable_in_flight:
  assumes "run es agent_init = Some a"
  shows "answers_in_flight a = (if loading (state a) then 1 else 0)
         \<and> loading (stateCopy a) = loading (state a)"
proof -
  have "answers_in_flight agent_init = (if loading (state agent_init) then 1 else 0)"
    and "loading (stateCopy agent_init) = loading (state agent_init)"
    by (simp_all add: agent_init_def answers_in_flight_def)
  from run_in_flight [OF this assms] show ?thesis .
qed

lemma step_keeps_loading:
  assumes "loading (state a)" and "step e a = Some a'" and "e \<noteq> AnswerReturns"
  shows "loading (state a')"
proof (cases e)
  case ClearPhotos
  with assms show ?thesis by (auto simp: clearPhotos_def notify_def)
next
  case (AddPhoto ps)
  with assms show ?thesis by (auto simp: addPhoto_call_def)
next
  case (Answer question audio_throws)
  with assms show ?thesis by (auto simp: answer_call_def Let_def)
next
  case LockGrant
  with assms show ?thesis
    by (auto simp: lock_start_def answer_locked_def addPhoto_loop_def notify_def
        split: option.splits list.splits job.splits prod.splits if_splits)
next
  case (ImageDescriptionSettled r)
  with assms show ?thesis
    by (auto simp: addPhoto_resumed_def addPhoto_loop_def notify_def
        split: option.splits suspended.splits sum.splits list.splits if_splits)
next
  case (LlamaFindSettled r)
  with assms show ?thesis
    by (auto simp: answer_resumed_def split: option.splits suspended.splits sum.splits)
next
  case AnswerReturns
  with assms show ?thesis by simp
qed

lemma run_keeps_loading:
  assumes "loading (state a)" and "run es a = Some a'" and "AnswerReturns \<notin> set es"
  shows "loading (state a')"
  using assms
proof (induction es arbitrary: a)
  case Nil
  then show ?case by simp
next
  case (Cons e es)
  from Cons.prems(2) obtain a1 where a1: "step e a = Some a1" and rest: "run es a1 = Some a'"
    by (auto split: option.splits)
  from Cons.prems(3) have "e \<noteq> AnswerReturns" and no: "AnswerReturns \<notin> set es" by auto
  from step_keeps_loading [OF Cons.prems(1) a1 this(1)] rest no show ?case
    by (rule Cons.IH)
qed

subsection \<open>The calls under way come to their end\<close>

declare settle.simps [simp del]

lemma next_event_enabled:
  assumes "next_event respond a = Some e"
  shows "\<exists>a'. step e a = Some a'" and "\<not> method_call e"
  using assms
  by (auto simp: next_event_def split: if_splits option.splits suspended.splits list.splits)

lemma next_event_None:
  assumes "next_event respond a = None"
  shows "answers_in_flight a = 0"
  using assms
  by (auto simp: next_event_def answers_in_flight_def
      split: if_splits option.splits suspended.splits list.splits)

lemma settle_nothing_pending: "next_event respond (settle respond a) = None"
proof (induction respond a rule: settle.induct)
  case (1 respond a)
  show ?case
  proof (cases "next_event respond a")
    case None
    then show ?thesis by (simp add: settle.simps [of respond a])
  next
    case (Some e)
    from next_event_enabled(1) [OF Some] obtain a' where a': "step e a = Some a'" by blast
    from "1.IH" [OF Some a'] Some a' show ?thesis
      by (simp add: settle.simps [of respond a])
  qed
qed

lemma settle_is_run:
  "\<exists>es. run es a = Some (settle respond a) \<and> (\<forall>e \<in> set es. \<not> method_call e)"
proof (induction respond a rule: settle.induct)
  case (1 respond a)
  show ?case
  proof (cases "next_event respond a")
    case None
    then have "run [] a = Some (settle respond a)" by (simp add: settle.simps [of respond a])
    then show ?thesis by fastforce
  next
    case (Some e)
    from next_event_enabled [OF Some] obtain a' where a': "step e a = Some a'"
      and e: "\<not> method_call e" by blast
    from "1.IH" [OF Some a'] obtain es where es: "run es a' = Some (settle respond a')"
      and calls: "\<forall>x \<in> set es. \<not> method_call x" by blast
    have "settle respond a = settle respond a'"
      using Some a' by (simp add: settle.simps [of respond a])
    with es a' have "run (e # es) a = Some (settle respond a)" by simp
    moreover from e calls have "\<forall>x \<in> set (e # es). \<not> method_call x" by simp
    ultimately show ?thesis by blast
  qed
qed

lemma step_work:
  assumes "step e a = Some a'" and "\<not> method_call e"
  shows "work a' < work a"
  using assms
  by (cases e)
    (auto simp: work_def answer_finally_def notify_def answer_resumed_def
      addPhoto_resumed_def addPhoto_loop_def lock_start_def answer_locked_def
      split: if_splits option.splits suspended.splits list.splits sum.splits job.splits
        prod.splits)

lemma run_work:
  assumes "run es a = Some a'" and "\<forall>e \<in> set es. \<not> method_call e"
  shows "length es + work a' \<le> work a"
  using assms
proof (induction es arbitrary: a)
  case Nil
  then show ?case by simp
next
  case (Cons e es)
  from Cons.prems(1) obtain a1 where a1: "step e a = Some a1" and rest: "run es a1 = Some a'"
    by (auto split: option.splits)
  from Cons.prems(2) have e: "\<not> method_call e" and es: "\<forall>x \<in> set es. \<not> method_call x"
    by simp_all
  from Cons.IH [OF rest es] step_work [OF a1 e] show ?case by simp
qed

text \<open>
  C3. Take any state the agent can reach in which \<open>loading\<close> is false, and a call of
  \<open>answer\<close> there. The call raises \<open>loading\<close> and notifies before it hands its callback to
  the lock. Whatever happens next (other calls of any method, the lock starting callbacks,
  collaborator calls returning or throwing) \<open>loading\<close> stays true in the state and in
  its published copy, and this call is the only call of \<open>answer\<close> under way, as long as its
  \<open>finally\<close> block has not run. The \<open>finally\<close> block lowers \<open>loading\<close> and notifies. And
  the call does come to that point: from any later state, when the collaborators settle
  their calls, by a reply or by an error, a bounded number of events leads to a state with
  nothing pending and \<open>loading\<close> false; the \<open>finally\<close> block is among those events when
  it has not run before.
\<close>

theorem answer_ends_with_loading_false:
  assumes "run es agent_init = Some a" and "\<not> loading (state a)"
  shows "step (Answer question audio_throws) a = Some (answer_call question audio_throws a)
       \<and> loading (state (answer_call question audio_throws a))
       \<and> loading (stateCopy (answer_call question audio_throws a))
       \<and> effects (answer_call question audio_throws a) =
           effects a @ StartAudio # (if audio_throws then [AudioFailed] else [])
             @ [Notify ((state a)\<lparr>loading := True\<rparr>), InLock]
       \<and> (\<forall>es' a2. run es' (answer_call question audio_throws a) = Some a2
              \<and> AnswerReturns \<notin> set es'
            \<longrightarrow> loading (state a2) \<and> loading (stateCopy a2) \<and> answers_in_flight a2 = 1)
       \<and> (\<forall>es' a2 a3. run es' (answer_call question audio_throws a) = Some a2
              \<and> AnswerReturns \<notin> set es' \<and> step AnswerReturns a2 = Some a3
            \<longrightarrow> \<not> loading (state a3) \<and> stateCopy a3 = state a3
                \<and> effects a3 = effects a2 @ [Notify (state a3)]
                \<and> answers_in_flight a3 = 0)
       \<and> (\<forall>es' a2 respond. run es' (answer_call question audio_throws a) = Some a2
            \<longrightarrow> \<not> loading (state (settle respond a2))
                \<and> \<not> loading (stateCopy (settle respond a2))
                \<and> (\<exists>es''. run es'' a2 = Some (settle respond a2)
                      \<and> (\<forall>e \<in> set es''. \<not> method_call e)
                      \<and> length es'' \<le> work a2
                      \<and> (AnswerReturns \<notin> set es' \<longrightarrow> AnswerReturns \<in> set es'')))"
proof -
  let ?a1 = "answer_call question audio_throws a"
  note inv = reachable_in_flight [OF assms(1)]
  have call: "step (Answer question audio_throws) a = Some ?a1" by simp
  have up: "loading (state ?a1)"
    by (simp add: answer_call_def notify_def Let_def)
  have inv1: "answers_in_flight ?a1 = (if loading (state ?a1) then 1 else 0)"
    "loading (stateCopy ?a1) = loading (state ?a1)"
    using step_in_flight [OF _ _ call] inv by simp_all
  have eff: "effects ?a1 = effects a @ StartAudio # (if audio_throws then [AudioFailed] else [])
             @ [Notify ((state a)\<lparr>loading := True\<rparr>), InLock]"
    using assms(2) by (simp add: answer_call_def notify_def Let_def)
  have span: "loading (state a2) \<and> loading (stateCopy a2) \<and> answers_in_flight a2 = 1"
    if r: "run es' ?a1 = Some a2" and no: "AnswerReturns \<notin> set es'" for es' a2
  proof -
    from run_keeps_loading [OF up r no] have "loading (state a2)" .
    with run_in_flight [OF inv1 r] show ?thesis by simp
  qed
  have fin: "\<not> loading (state a3) \<and> stateCopy a3 = state a3
             \<and> effects a3 = effects a2 @ [Notify (state a3)] \<and> answers_in_flight a3 = 0"
    if r: "run es' ?a1 = Some a2" and s: "step AnswerReturns a2 = Some a3" for es' a2 a3
  proof -
    from s have a3: "a3 = answer_finally a2" by (simp split: if_splits)
    then have down: "\<not> loading (state a3)" "stateCopy a3 = state a3"
      "effects a3 = effects a2 @ [Notify (state a3)]"
      by (simp_all add: answer_finally_def notify_def)
    from run_in_flight [OF inv1 r]
    have "answers_in_flight a2 = (if loading (state a2) then 1 else 0)"
      "loading (stateCopy a2) = loading (state a2)" by simp_all
    from step_in_flight [OF this s] down(1) have "answers_in_flight a3 = 0" by simp
    with down show ?thesis by simp
  qed
  have ends: "\<not> loading (state (settle respond a2))
              \<and> \<not> loading (stateCopy (settle respond a2))
              \<and> (\<exists>es''. run es'' a2 = Some (settle respond a2)
                    \<and> (\<forall>e \<in> set es''. \<not> method_call e)
                    \<and> length es'' \<le> work a2
                    \<and> (AnswerReturns \<notin> set es' \<longrightarrow> AnswerReturns \<in> set es''))"
    if r: "run es' ?a1 = Some a2" for es' a2 respond
  proof -
    from settle_is_run [of a2 respond] obtain es''
      where es'': "run es'' a2 = Some (settle respond a2)"
        and calls: "\<forall>e \<in> set es''. \<not> method_call e" by blast
    from run_in_flight [OF inv1 r]
    have inv2: "answers_in_flight a2 = (if loading (state a2) then 1 else 0)"
      "loading (stateCopy a2) = loading (state a2)" by simp_all
    from run_in_flight [OF inv2 es'']
    have inv3: "answers_in_flight (settle respond a2) =
                  (if loading (state (settle respond a2)) then 1 else 0)"
      "loading (stateCopy (settle respond a2)) = loading (state (settle respond a2))"
      by simp_all
    from next_event_None [OF settle_nothing_pending [of respond a2]]
    have "answers_in_flight (settle respond a2) = 0" .
    with inv3 have down: "\<not> loading (state (settle respond a2))"
      "\<not> loading (stateCopy (settle respond a2))"
      by (simp_all split: if_splits)
    from run_work [OF es'' calls] have bound: "length es'' \<le> work a2" by simp
    have "AnswerReturns \<in> set es''" if no: "AnswerReturns \<notin> set es'"
    proof (rule ccontr)
      assume "AnswerReturns \<notin> set es''"
      from span [OF r no] have "loading (state a2)" by simp
      from run_keeps_loading [OF this es'' \<open>AnswerReturns \<notin> set es''\<close>] down(1)
      show False by simp
    qed
    with down es'' calls bound show ?thesis by blast
  qed
  from call up inv1(2) eff span fin ends show ?thesis by blast
qed
theorem answer_ends_with_loading_false_witness:
  "loading (state (the (run [Answer ''Q'' False, AddPhoto [[1]], LockGrant, ClearPhotos,
       Answer ''again'' False, LlamaFindSettled (Inl (Thrown ''boom''))] agent_init)))
   \<and> answers_in_flight (the (run [Answer ''Q'' False, AddPhoto [[1]], LockGrant, ClearPhotos,
       Answer ''again'' False, LlamaFindSettled (Inl (Thrown ''boom''))] agent_init)) = 1
   \<and> map_option (\<lambda>a. (loading (state a), answer (state a), stateCopy a = state a))
     (run [Answer ''Q'' False, AddPhoto [[1]], LockGrant, ClearPhotos, Answer ''again'' False,
           LlamaFindSettled (Inl (Thrown ''boom'')), AnswerReturns] agent_init) =
     Some (False, Some fallback_answer, True)
   \<and> \<not> loading (state (settle (\<lambda>k. Inl (Thrown ''boom''))
           (the (run [Answer ''Q'' False] agent_init))))"
proof -
  let ?a1 = "answer_call ''Q'' False agent_init"
  let ?es = "[AddPhoto [[1]], LockGrant, ClearPhotos, Answer ''again'' False,
              LlamaFindSettled (Inl (Thrown ''boom''))]"
  let ?a2 = "\<lparr>photos = [],
      state = \<lparr>lastDescription = None, answer = Some fallback_answer, loading = True\<rparr>,
      stateCopy = \<lparr>lastDescription = None, answer = None, loading = True\<rparr>,
      lock_waiting = [AddPhotoJob [[1]]], lock_running = None, leaving = 1,
      effects = [StartAudio, Notify \<lparr>lastDescription = None, answer = None, loading = True\<rparr>,
        InLock, InLock, LlamaFind ''Q'' [],
        Notify \<lparr>lastDescription = None, answer = None, loading = True\<rparr>, StartAudio]\<rparr>"
  have r0: "run [] agent_init = Some agent_init" by simp
  have f: "\<not> loading (state agent_init)" by (simp add: agent_init_def)
  note t = answer_ends_with_loading_false [OF r0 f, of "''Q''" False]
  have r2: "run ?es ?a1 = Some ?a2"
    by (simp add: agent_init_def answer_call_def notify_def Let_def addPhoto_call_def
        lock_start_def answer_locked_def clearPhotos_def answer_resumed_def)
  have no: "AnswerReturns \<notin> set ?es" by simp
  have s3: "step AnswerReturns ?a2 = Some (answer_finally ?a2)" by simp
  from t r2 no have span: "loading (state ?a2) \<and> answers_in_flight ?a2 = 1" by blast
  from t r2 no s3 have "\<not> loading (state (answer_finally ?a2))
      \<and> stateCopy (answer_finally ?a2) = state (answer_finally ?a2)"
    by blast
  then have fin: "map_option (\<lambda>a. (loading (state a), answer (state a), stateCopy a = state a))
      (Some (answer_finally ?a2)) = Some (False, Some fallback_answer, True)"
    by (simp add: answer_finally_def notify_def)
  have "run [] ?a1 = Some ?a1" by simp
  with t have ends: "\<not> loading (state (settle (\<lambda>k. Inl (Thrown ''boom'')) ?a1))"
    by blast
  have run2: "run (Answer ''Q'' False # ?es) agent_init = Some ?a2"
    using r2 by simp
  have run3: "run ((Answer ''Q'' False # ?es) @ [AnswerReturns]) agent_init =
                Some (answer_finally ?a2)"
    unfolding run_append run2 by simp
  from span fin ends run2 run3 show ?thesis by simp
qed

end
